theory Spec2Isabelle
  imports Complex_Main
begin

section \<open>Shared state, hardware outcomes and effects\<close>

text \<open>
  The controller of \<^verbatim>\<open>final.py\<close> keeps its state in module globals: the
  inactivity timer \<^verbatim>\<open>timer\<close>, the dictionary \<^verbatim>\<open>client_status\<close>, the three
  gpiozero LEDs and the image directory on disk. Time values (\<^verbatim>\<open>time.time()\<close>,
  the arguments of \<^verbatim>\<open>time.sleep\<close>) are Python floats; they are idealised
  as reals here. A \<^verbatim>\<open>datetime\<close> is the record of its fields.
\<close>

datatype led = Led1 | Led2 | Ledc

datatype level = INFO | WARNING | ERROR

datatype lock = Camera_lock | Blink_lock

record datetime =
  year :: nat
  month :: nat
  day :: nat
  hour :: nat
  minute :: nat
  second :: nat
  microsecond :: nat

type_synonym image = "nat list"

text \<open>
  A call into a driver or a subprocess either returns a value or raises a Python
  \<^verbatim>\<open>Exception\<close>, carried here by its \<^verbatim>\<open>str()\<close>.
\<close>

datatype 'a outcome = Returns 'a | Raises string

text \<open>
  What a function does to the outside world, in program order: log records, LED
  operations, sleeps, writes to the shared variables, lock operations, driver calls
  and the power-off subprocess.
\<close>

datatype event =
    Logging level string
  | LedOn led
  | LedOff led
  | LedToggle led
  | Sleep real
  | SetLastPing datetime
  | UpdateTimer real
  | Acquire lock
  | Release lock
  | AutofocusCycle
  | CaptureFile string
  | CheckCall "string list"

record state =
  timer :: real
  last_ping :: "datetime option"
  status :: bool
  led1 :: bool
  led2 :: bool
  ledc :: bool
  files :: "string \<rightharpoonup> image"

definition IMAGE_DIRECTORY :: string where
  "IMAGE_DIRECTORY = ''img/''"

definition update_timer :: "real \<Rightarrow> state \<Rightarrow> state" where
  "update_timer now s = s\<lparr>timer := now\<rparr>"

text \<open>The idle duration an observer computes at time \<open>now\<close>: \<^verbatim>\<open>now - timer\<close>.\<close>

definition idle_duration :: "real \<Rightarrow> state \<Rightarrow> real" where
  "idle_duration now s = now - timer s"

section \<open>The capture file name\<close>

text \<open>
  \<^verbatim>\<open>strftime("%Y-%m-%dT%H_%M_%S")\<close> prints the year on four digits and every
  other field on two, padded with zeros. \<open>digits w n\<close> is the \<open>w\<close>-digit decimal
  numeral of \<open>n\<close> (of \<open>n mod 10 ^ w\<close> when \<open>n\<close> is too large, which the ranges of
  the fields of a \<^verbatim>\<open>datetime\<close> exclude).
\<close>

definition digit_char :: "nat \<Rightarrow> char" where
  "digit_char d = char_of (48 + d)"

fun digits :: "nat \<Rightarrow> nat \<Rightarrow> string" where
  "digits 0 n = []"
| "digits (Suc w) n = digits w (n div 10) @ [digit_char (n mod 10)]"

definition strftime_stamp :: "datetime \<Rightarrow> string" where
  "strftime_stamp dt =
     digits 4 (year dt) @ ''-'' @ digits 2 (month dt) @ ''-'' @ digits 2 (day dt) @ ''T'' @
     digits 2 (hour dt) @ ''_'' @ digits 2 (minute dt) @ ''_'' @ digits 2 (second dt)"

text \<open>\<^verbatim>\<open>os.path.join\<close> on POSIX, for two components.\<close>

definition path_join :: "string \<Rightarrow> string \<Rightarrow> string" where
  "path_join a b =
     (if b \<noteq> [] \<and> hd b = CHR ''/'' then b
      else if a = [] \<or> last a = CHR ''/'' then a @ b
      else a @ ''/'' @ b)"

definition capture_filename :: "datetime \<Rightarrow> string" where
  "capture_filename dt = ''RF_pic_'' @ strftime_stamp dt @ ''.jpeg''"

definition capture_path :: "datetime \<Rightarrow> string" where
  "capture_path dt = path_join IMAGE_DIRECTORY (capture_filename dt)"


section \<open>The capture pipeline\<close>

text \<open>
  \<^verbatim>\<open>with camera_lock: body\<close> acquires the lock (waiting for it as long as it
  takes), runs the body and releases the lock on every exit of the body, whether it
  returns or raises; the result or the exception of the body passes through.
\<close>

definition with_camera_lock ::
  "(state \<Rightarrow> 'a outcome \<times> state \<times> event list) \<Rightarrow> state \<Rightarrow> 'a outcome \<times> state \<times> event list" where
  "with_camera_lock body s =
     (case body s of (r, s', evs) \<Rightarrow> (r, s', Acquire Camera_lock # evs @ [Release Camera_lock]))"

text \<open>
  What one run of \<^verbatim>\<open>capture_image\<close> reads from its environment: the clock at
  lines 133, 66 and 138, and the outcomes of \<^verbatim>\<open>camera.autofocus_cycle()\<close> and
  \<^verbatim>\<open>camera.capture_file(path)\<close> (the image it writes, or the exception).
\<close>

record capture_env =
  now_ping :: datetime
  now_timer :: real
  now_name :: datetime
  autofocus :: "bool outcome"
  capture :: "image outcome"

text \<open>Lines 145 to 155, the body of the \<^verbatim>\<open>with\<close> block.\<close>

definition capture_locked :: "capture_env \<Rightarrow> string \<Rightarrow> state \<Rightarrow> unit outcome \<times> state \<times> event list" where
  "capture_locked env path s =
     (case autofocus env of
        Raises e \<Rightarrow>
          (Raises e, s, [Logging INFO ''Starting autofocus cycle for capture...'', AutofocusCycle])
      | Returns success \<Rightarrow>
          (let evs = [Logging INFO ''Starting autofocus cycle for capture...'', AutofocusCycle,
                      if \<not> success then Logging WARNING ''Autofocus cycle failed or was skipped.''
                      else Logging INFO ''Autofocus complete.'',
                      CaptureFile path]
           in case capture env of
                Raises e \<Rightarrow> (Raises e, s, evs)
              | Returns img \<Rightarrow> (Returns (), s\<lparr>files := (files s)(path \<mapsto> img)\<rparr>, evs)))"

text \<open>
  Lines 130 to 163. The function has no \<^verbatim>\<open>return\<close> statement and catches every
  \<^verbatim>\<open>Exception\<close> of the \<^verbatim>\<open>try\<close> block, so its own outcome is \<^verbatim>\<open>None\<close>
  (the unit value) on every path.
\<close>

definition capture_image :: "capture_env \<Rightarrow> state \<Rightarrow> unit outcome \<times> state \<times> event list" where
  "capture_image env s =
     (let s1 = s\<lparr>last_ping := Some (now_ping env)\<rparr>;
          s2 = update_timer (now_timer env) s1;
          s3 = s2\<lparr>ledc := True\<rparr>;
          path = capture_path (now_name env);
          before = [SetLastPing (now_ping env), UpdateTimer (now_timer env), LedOn Ledc]
      in case with_camera_lock (capture_locked env path) s3 of
           (r, s4, evs) \<Rightarrow>
             (let handled = (case r of
                               Returns _ \<Rightarrow> [Logging INFO (''Captured: '' @ path)]
                             | Raises e \<Rightarrow> [Logging ERROR (''Capture failed: '' @ e)])
              in (Returns (), s4\<lparr>ledc := False\<rparr>,
                  before @ evs @ handled @ [Sleep (1/2), LedOff Ledc])))"

text \<open>
  Whether a lock is held after a sequence of events, given whether it was held before.
\<close>

fun held_after :: "lock \<Rightarrow> bool \<Rightarrow> event list \<Rightarrow> bool" where
  "held_after l h [] = h"
| "held_after l h (e # es) =
     held_after l (if e = Acquire l then True else if e = Release l then False else h) es"

text \<open>
  The exception that ends the \<^verbatim>\<open>try\<close> block of a run, if there is one: that of
  the autofocus cycle, or else that of the still capture.
\<close>

definition failure :: "capture_env \<Rightarrow> string option" where
  "failure env =
     (case autofocus env of
        Raises e \<Rightarrow> Some e
      | Returns success \<Rightarrow> (case capture env of Raises e \<Rightarrow> Some e | Returns img \<Rightarrow> None))"

fun is_error :: "event \<Rightarrow> bool" where
  "is_error (Logging l m) = (l = ERROR)"
| "is_error e = False"

definition autofocus_warning :: event where
  "autofocus_warning = Logging WARNING ''Autofocus cycle failed or was skipped.''"

text \<open>The events of a run from the autofocus warning on.\<close>

definition from_warning :: "event list \<Rightarrow> event list" where
  "from_warning evs = dropWhile (\<lambda>e. e \<noteq> autofocus_warning) evs"

section \<open>HTTP routes\<close>

text \<open>
  The body of a \<^verbatim>\<open>jsonify\<close> response, as its list of fields. The status routes
  (lines 176 to 178 and 222 to 232) only read the LEDs; the toggle routes (lines 234
  to 244) call \<^verbatim>\<open>update_timer\<close> first.
\<close>

datatype json_value = JBool bool | JString string

type_synonym response = "(string \<times> json_value) list"

definition device_status :: "state \<Rightarrow> response \<times> state" where
  "device_status s = ([(''online'', JBool True)], s)"

definition led1_status_route :: "state \<Rightarrow> response \<times> state" where
  "led1_status_route s = ([(''active'', JBool (led1 s))], s)"

definition led2_status_route :: "state \<Rightarrow> response \<times> state" where
  "led2_status_route s = ([(''active'', JBool (led2 s))], s)"

definition uv_status_route :: "state \<Rightarrow> response \<times> state" where
  "uv_status_route s = ([(''UV_A'', JBool (led1 s)), (''UV_B'', JBool (led2 s))], s)"

definition toggle_led1_route :: "real \<Rightarrow> state \<Rightarrow> response \<times> state" where
  "toggle_led1_route now s =
     (let s1 = update_timer now s; s2 = s1\<lparr>led1 := \<not> led1 s1\<rparr>
      in ([(''active'', JBool (led1 s2))], s2))"

definition toggle_led2_route :: "real \<Rightarrow> state \<Rightarrow> response \<times> state" where
  "toggle_led2_route now s =
     (let s1 = update_timer now s; s2 = s1\<lparr>led2 := \<not> led2 s1\<rparr>
      in ([(''active'', JBool (led2 s2))], s2))"

section \<open>The power state machine\<close>

















section \<open>The camera lock under interleaving\<close>

text \<open>
  \<^verbatim>\<open>camera_lock\<close> is a \<^verbatim>\<open>threading.Lock\<close>: one bit, set by a successful
  \<^verbatim>\<open>acquire\<close> (which waits while the bit is set) and cleared by \<^verbatim>\<open>release\<close>.
  Two kinds of thread use it: the generator \<^verbatim>\<open>generate_frames\<close> (lines 254 to
  271), one per open stream, and \<^verbatim>\<open>capture_image\<close> (lines 130 to 163), one per
  capture request or button hold. Each thread is followed through the points where it
  meets the lock; \<open>left\<close> records whether the body of the \<^verbatim>\<open>with\<close> block was left
  by falling off its end or by an exception.
\<close>

datatype left = Normal | Exceptional

datatype stream_pc =
    S_acquire
  | S_capture_array
  | S_release left
  | S_deliver
  | S_dead

datatype capture_pc =
    C_prologue
  | C_acquire
  | C_autofocus
  | C_capture_file
  | C_release left
  | C_epilogue
  | C_done

datatype camera_thread = Streamer stream_pc | Capturer capture_pc

text \<open>Whether the call a thread is about to make returns or raises.\<close>

datatype call_result = Ok | Fault

fun left_by :: "call_result \<Rightarrow> left" where
  "left_by Ok = Normal"
| "left_by Fault = Exceptional"

text \<open>
  One step of one thread, given the lock bit; the result is the new lock bit and the
  thread's next point. A thread at \<^verbatim>\<open>acquire\<close> that finds the bit set stays where
  it is. After the release a streamer that left normally goes on to encode and yield
  the frame (and from there round the loop, unless the consumer has gone), one that
  left by an exception ends; a capturer goes on to its handlers and its
  \<^verbatim>\<open>finally\<close> clause either way.
\<close>

fun thread_step :: "call_result \<Rightarrow> bool \<Rightarrow> camera_thread \<Rightarrow> bool \<times> camera_thread" where
  "thread_step r locked (Streamer S_acquire) =
     (if locked then (locked, Streamer S_acquire) else (True, Streamer S_capture_array))"
| "thread_step r locked (Streamer S_capture_array) = (locked, Streamer (S_release (left_by r)))"
| "thread_step r locked (Streamer (S_release Normal)) = (False, Streamer S_deliver)"
| "thread_step r locked (Streamer (S_release Exceptional)) = (False, Streamer S_dead)"
| "thread_step r locked (Streamer S_deliver) =
     (locked, Streamer (case r of Ok \<Rightarrow> S_acquire | Fault \<Rightarrow> S_dead))"
| "thread_step r locked (Streamer S_dead) = (locked, Streamer S_dead)"
| "thread_step r locked (Capturer C_prologue) = (locked, Capturer C_acquire)"
| "thread_step r locked (Capturer C_acquire) =
     (if locked then (locked, Capturer C_acquire) else (True, Capturer C_autofocus))"
| "thread_step r locked (Capturer C_autofocus) =
     (locked, Capturer (case r of Ok \<Rightarrow> C_capture_file | Fault \<Rightarrow> C_release Exceptional))"
| "thread_step r locked (Capturer C_capture_file) = (locked, Capturer (C_release (left_by r)))"
| "thread_step r locked (Capturer (C_release l)) = (False, Capturer C_epilogue)"
| "thread_step r locked (Capturer C_epilogue) = (locked, Capturer C_done)"
| "thread_step r locked (Capturer C_done) = (locked, Capturer C_done)"

record camera_sys =
  camera_lock :: bool
  camera_threads :: "camera_thread list"

text \<open>The scheduler picks a thread and the outcome of the call it makes.\<close>

definition camera_step :: "nat \<times> call_result \<Rightarrow> camera_sys \<Rightarrow> camera_sys" where
  "camera_step a s =
     (case a of (i, r) \<Rightarrow>
        if i < length (camera_threads s) then
          (case thread_step r (camera_lock s) (camera_threads s ! i) of
             (locked, t) \<Rightarrow> \<lparr>camera_lock = locked, camera_threads = (camera_threads s)[i := t]\<rparr>)
        else s)"

fun camera_exec :: "(nat \<times> call_result) list \<Rightarrow> camera_sys \<Rightarrow> camera_sys" where
  "camera_exec [] s = s"
| "camera_exec (a # as) s = camera_exec as (camera_step a s)"

datatype role = Stream | Capture

fun start :: "role \<Rightarrow> camera_thread" where
  "start Stream = Streamer S_acquire"
| "start Capture = Capturer C_prologue"

definition camera_init :: "role list \<Rightarrow> camera_sys" where
  "camera_init rs = \<lparr>camera_lock = False, camera_threads = map start rs\<rparr>"

text \<open>A thread holds the camera from its successful acquire up to its release.\<close>

fun holds :: "camera_thread \<Rightarrow> bool" where
  "holds (Streamer S_capture_array) = True"
| "holds (Streamer (S_release l)) = True"
| "holds (Capturer C_autofocus) = True"
| "holds (Capturer C_capture_file) = True"
| "holds (Capturer (C_release l)) = True"
| "holds t = False"

fun role_of :: "camera_thread \<Rightarrow> role" where
  "role_of (Streamer p) = Stream"
| "role_of (Capturer p) = Capture"

definition holders :: "camera_sys \<Rightarrow> role list" where
  "holders s = map role_of (filter holds (camera_threads s))"

text \<open>
  Thread \<open>i\<close> run on its own, one call outcome per step, until it no longer holds
  the camera.
\<close>

fun run_to_release :: "nat \<Rightarrow> call_result list \<Rightarrow> camera_sys \<Rightarrow> camera_sys" where
  "run_to_release i [] s = s"
| "run_to_release i (r # rs) s =
     (if holds (camera_threads s ! i) then run_to_release i rs (camera_step (i, r) s) else s)"

text \<open>
  The lock bit and the threads agree when the lock is set exactly while one thread
  holds the camera, and no second thread does.
\<close>

definition camera_inv :: "camera_sys \<Rightarrow> bool" where
  "camera_inv s \<longleftrightarrow> length (filter holds (camera_threads s)) = (if camera_lock s then 1 else 0)"

text \<open>The own steps a holder still has to take before it is out of the locked section.\<close>

fun steps_left :: "camera_thread \<Rightarrow> nat" where
  "steps_left (Streamer S_capture_array) = 2"
| "steps_left (Streamer (S_release l)) = 1"
| "steps_left (Capturer C_autofocus) = 3"
| "steps_left (Capturer C_capture_file) = 2"
| "steps_left (Capturer (C_release l)) = 1"
| "steps_left t = 0"

section \<open>The blink signal under interleaving\<close>

text \<open>
  \<^verbatim>\<open>blink()\<close> (lines 68 to 84) starts a thread and returns; the thread runs
  \<^verbatim>\<open>blink_led\<close>. Its first action is the non-blocking attempt on
  \<^verbatim>\<open>blink_lock\<close> (line 72). \<open>B_on k\<close> is line 77 with \<open>k\<close> iterations of the
  loop still to run, this one included. A thread ends at \<open>B_returned\<close> when it
  returns at line 73, and at \<open>B_done\<close> after its \<^verbatim>\<open>finally\<close> clause.
\<close>

datatype blink_pc =
    B_try
  | B_returned
  | B_on nat
  | B_sleep_on nat
  | B_off nat
  | B_sleep_off nat
  | B_release
  | B_done

record blink_sys =
  blink_lock :: bool
  indicator :: bool
  blink_threads :: "blink_pc list"
  blink_trace :: "event list"

datatype blink_action = Call_blink | Run_thread nat

definition next_iteration :: "nat \<Rightarrow> blink_pc" where
  "next_iteration k = (if k = 0 then B_release else B_on k)"

text \<open>
  One step of a blink thread: the new lock bit, the new state of the LED, the next
  point and the events of the step.
\<close>

fun blink_led :: "bool \<Rightarrow> bool \<Rightarrow> blink_pc \<Rightarrow> bool \<times> bool \<times> blink_pc \<times> event list" where
  "blink_led locked on B_try =
     (if locked then (locked, on, B_returned, [])
      else (True, on, next_iteration 6, [Acquire Blink_lock]))"
| "blink_led locked on B_returned = (locked, on, B_returned, [])"
| "blink_led locked on (B_on k) = (locked, True, B_sleep_on k, [LedOn Ledc])"
| "blink_led locked on (B_sleep_on k) = (locked, on, B_off k, [Sleep (1/5)])"
| "blink_led locked on (B_off k) = (locked, False, B_sleep_off k, [LedOff Ledc])"
| "blink_led locked on (B_sleep_off k) = (locked, on, next_iteration (k - 1), [Sleep (1/5)])"
| "blink_led locked on B_release = (False, on, B_done, [Release Blink_lock])"
| "blink_led locked on B_done = (locked, on, B_done, [])"

definition blink_step :: "blink_action \<Rightarrow> blink_sys \<Rightarrow> blink_sys" where
  "blink_step a s =
     (case a of
        Call_blink \<Rightarrow> s\<lparr>blink_threads := blink_threads s @ [B_try]\<rparr>
      | Run_thread i \<Rightarrow>
          if i < length (blink_threads s) then
            (case blink_led (blink_lock s) (indicator s) (blink_threads s ! i) of
               (locked, on, pc, evs) \<Rightarrow>
                 \<lparr>blink_lock = locked, indicator = on,
                  blink_threads = (blink_threads s)[i := pc],
                  blink_trace = blink_trace s @ evs\<rparr>)
          else s)"

fun blink_exec :: "blink_action list \<Rightarrow> blink_sys \<Rightarrow> blink_sys" where
  "blink_exec [] s = s"
| "blink_exec (a # as) s = blink_exec as (blink_step a s)"

definition blink_init :: blink_sys where
  "blink_init = \<lparr>blink_lock = False, indicator = False, blink_threads = [], blink_trace = []\<rparr>"

text \<open>
  A thread is in a blink sequence from its successful attempt up to its release. The
  sequences started and completed are read off the trace; the calls to
  \<^verbatim>\<open>blink()\<close> are the threads there are.
\<close>

fun in_sequence :: "blink_pc \<Rightarrow> bool" where
  "in_sequence B_try = False"
| "in_sequence B_returned = False"
| "in_sequence B_done = False"
| "in_sequence pc = True"

definition sequences_started :: "blink_sys \<Rightarrow> nat" where
  "sequences_started s = count_list (blink_trace s) (Acquire Blink_lock)"

definition sequences_completed :: "blink_sys \<Rightarrow> nat" where
  "sequences_completed s = count_list (blink_trace s) (Release Blink_lock)"

definition blink_calls :: "blink_sys \<Rightarrow> nat" where
  "blink_calls s = length (blink_threads s)"

text \<open>The threads at a given point, and the threads inside a blink sequence.\<close>

definition threads_at :: "blink_pc \<Rightarrow> blink_sys \<Rightarrow> nat" where
  "threads_at pc s = length (filter (\<lambda>p. p = pc) (blink_threads s))"

definition running :: "blink_sys \<Rightarrow> nat" where
  "running s = length (filter in_sequence (blink_threads s))"

text \<open>
  What every reachable state satisfies: the lock is set exactly while one thread is in
  a sequence, the releases in the trace are the threads that finished a sequence, and
  the successful attempts in the trace are those threads and the one still in its
  sequence.
\<close>

definition blink_inv :: "blink_sys \<Rightarrow> bool" where
  "blink_inv s \<longleftrightarrow>
     running s = (if blink_lock s then 1 else 0) \<and>
     sequences_completed s = threads_at B_done s \<and>
     sequences_started s = running s + threads_at B_done s"

section \<open>Concrete inputs\<close>

text \<open>A device that has just started, and an instant of the clock.\<close>

definition s0 :: state where
  "s0 = \<lparr>timer = 0, last_ping = None, status = False, led1 = True, led2 = True,
          ledc = False, files = Map.empty\<rparr>"

definition dt0 :: datetime where
  "dt0 = \<lparr>year = 2024, month = 3, day = 9, hour = 7, minute = 5, second = 2, microsecond = 120\<rparr>"

text \<open>
  A schedule for one streamer (thread 0) and one capturer (thread 1): the streamer
  takes the lock, the capturer arrives and waits, the frame grab raises.
\<close>

definition sched0 :: "(nat \<times> call_result) list" where
  "sched0 = [(0, Ok), (1, Ok), (1, Ok), (0, Fault), (1, Ok)]"

text \<open>
  Two schedules. In both a first call starts a sequence and a second call is made
  while that sequence is in progress. In \<open>busy_schedule\<close> the thread of the second
  call makes its attempt at once; in \<open>late_schedule\<close> it is scheduled only after
  the first thread has run its 24 loop steps and released the lock.
\<close>

definition busy_schedule :: "blink_action list" where
  "busy_schedule = [Call_blink, Run_thread 0, Call_blink, Run_thread 1]"

definition late_schedule :: "blink_action list" where
  "late_schedule =
     [Call_blink, Run_thread 0, Call_blink] @ replicate 25 (Run_thread 0) @ replicate 26 (Run_thread 1)"

text \<open>Runs of the capture pipeline: a good one, and ones that meet a failure.\<close>

definition env_ok :: capture_env where
  "env_ok = \<lparr>now_ping = dt0, now_timer = 10, now_name = dt0,
             autofocus = Returns True, capture = Returns [255, 216, 255]\<rparr>"

definition env_unfocused :: capture_env where
  "env_unfocused = env_ok\<lparr>autofocus := Returns False\<rparr>"

definition env_capture_fails :: capture_env where
  "env_capture_fails = env_ok\<lparr>capture := Raises ''camera timeout''\<rparr>"




section \<open>Properties of the power state machine\<close>





















section \<open>Properties of the capture pipeline\<close>


lemmas capture_defs = capture_image_def with_camera_lock_def capture_locked_def update_timer_def Let_def

text \<open>
  C6. Every run of the capture pipeline begins with the same four effects in the same
  order: it records the client's last ping, touches the activity timer, turns the
  indicator LED on, and only then acquires the camera lock, which it acquires once.
  Marking the client live is the write of \<^verbatim>\<open>last_ping\<close>; the pipeline does
  not write the \<^verbatim>\<open>status\<close> flag.
\<close>

theorem capture_order_of_effects:
  "take 4 (snd (snd (capture_image env s))) =
     [SetLastPing (now_ping env), UpdateTimer (now_timer env), LedOn Ledc, Acquire Camera_lock] \<and>
   count_list (snd (snd (capture_image env s))) (Acquire Camera_lock) = 1 \<and>
   last_ping (fst (snd (capture_image env s))) = Some (now_ping env) \<and>
   timer (fst (snd (capture_image env s))) = now_timer env"
  by (simp add: capture_defs split: outcome.splits)

theorem capture_order_of_effects_witness:
  "take 4 (snd (snd (capture_image env_ok s0))) =
     [SetLastPing dt0, UpdateTimer 10, LedOn Ledc, Acquire Camera_lock] \<and>
   take 4 (snd (snd (capture_image env_capture_fails s0))) =
     [SetLastPing dt0, UpdateTimer 10, LedOn Ledc, Acquire Camera_lock]"
  using capture_order_of_effects [of env_ok s0] capture_order_of_effects [of env_capture_fails s0]
  by (simp add: env_ok_def env_capture_fails_def)

text \<open>
  C7. When the autofocus cycle returns false the run does not stop there: the warning
  is logged, the still capture is attempted after it on the path of the run, and the
  run ends with the result of that capture, a stored image and the log line
  \<^verbatim>\<open>Captured\<close> with no error logged, or the logged error of the capture itself.
  The state it leaves is the one a run with a successful autofocus leaves.
\<close>

theorem autofocus_failure_is_not_fatal:
  assumes "autofocus env = Returns False"
  shows "autofocus_warning \<in> set (snd (snd (capture_image env s))) \<and>
         CaptureFile (capture_path (now_name env)) \<in> set (from_warning (snd (snd (capture_image env s)))) \<and>
         (case capture env of
            Returns img \<Rightarrow>
              files (fst (snd (capture_image env s))) (capture_path (now_name env)) = Some img \<and>
              Logging INFO (''Captured: '' @ capture_path (now_name env)) \<in> set (snd (snd (capture_image env s))) \<and>
              filter is_error (snd (snd (capture_image env s))) = []
          | Raises e \<Rightarrow>
              Logging ERROR (''Capture failed: '' @ e) \<in> set (snd (snd (capture_image env s)))) \<and>
         fst (snd (capture_image env s)) = fst (snd (capture_image (env\<lparr>autofocus := Returns True\<rparr>) s))"
  using assms
  by (simp add: capture_defs autofocus_warning_def from_warning_def split: outcome.splits)

theorem autofocus_failure_is_not_fatal_witness:
  "autofocus_warning \<in> set (snd (snd (capture_image env_unfocused s0))) \<and>
   CaptureFile ''img/RF_pic_2024-03-09T07_05_02.jpeg'' \<in> set (from_warning (snd (snd (capture_image env_unfocused s0)))) \<and>
   files (fst (snd (capture_image env_unfocused s0))) ''img/RF_pic_2024-03-09T07_05_02.jpeg'' = Some [255, 216, 255]"
proof -
  have p: "capture_path dt0 = ''img/RF_pic_2024-03-09T07_05_02.jpeg''"
    by code_simp
  have a: "autofocus env_unfocused = Returns False"
    by (simp add: env_unfocused_def)
  have c: "capture env_unfocused = Returns [255, 216, 255]"
    by (simp add: env_unfocused_def env_ok_def)
  have n: "now_name env_unfocused = dt0"
    by (simp add: env_unfocused_def env_ok_def)
  from autofocus_failure_is_not_fatal [OF a, of s0, unfolded c n p outcome.case]
  show ?thesis by blast
qed

text \<open>
  C5, as amended. Every run of the capture pipeline returns \<^verbatim>\<open>None\<close> without
  raising, ends with the half-second hold followed by switching the indicator LED
  off, leaves that LED off and leaves the camera lock released. When the autofocus
  cycle or the still capture raises, the error is logged and the stored images are
  unchanged; when the autofocus cycle returns false, the warning is logged. No run
  hands a failed result to its caller.
\<close>

theorem capture_failure_cleanup:
  "fst (capture_image env s) = Returns () \<and>
   take 2 (rev (snd (snd (capture_image env s)))) = [LedOff Ledc, Sleep (1/2)] \<and>
   \<not> ledc (fst (snd (capture_image env s))) \<and>
   \<not> held_after Camera_lock False (snd (snd (capture_image env s))) \<and>
   (case failure env of
      Some e \<Rightarrow>
        Logging ERROR (''Capture failed: '' @ e) \<in> set (snd (snd (capture_image env s))) \<and>
        files (fst (snd (capture_image env s))) = files s
    | None \<Rightarrow> filter is_error (snd (snd (capture_image env s))) = []) \<and>
   (if autofocus env = Returns False
    then autofocus_warning \<in> set (snd (snd (capture_image env s))) else True)"
  by (simp add: capture_defs failure_def autofocus_warning_def split: outcome.splits)

theorem capture_failure_cleanup_witness:
  "fst (capture_image env_capture_fails s0) = Returns () \<and>
   \<not> ledc (fst (snd (capture_image env_capture_fails s0))) \<and>
   \<not> held_after Camera_lock False (snd (snd (capture_image env_capture_fails s0))) \<and>
   Logging ERROR ''Capture failed: camera timeout'' \<in> set (snd (snd (capture_image env_capture_fails s0))) \<and>
   files (fst (snd (capture_image env_capture_fails s0))) = files s0"
  using capture_failure_cleanup [of env_capture_fails s0]
  by (simp add: env_capture_fails_def env_ok_def failure_def)

text \<open>
  C5 as stated fails where it promises a failed result. A run whose still capture
  raises returns what a successful run returns; and a run whose autofocus cycle
  returns false, a failure of step 4, logs no error and stores the image.
\<close>

theorem capture_failed_result_counterexample:
  "failure env_capture_fails = Some ''camera timeout'' \<and>
   fst (capture_image env_capture_fails s0) = fst (capture_image env_ok s0) \<and>
   autofocus env_unfocused = Returns False \<and>
   filter is_error (snd (snd (capture_image env_unfocused s0))) = [] \<and>
   files (fst (snd (capture_image env_unfocused s0))) (capture_path dt0) = Some [255, 216, 255]"
  by (simp add: capture_defs failure_def env_capture_fails_def env_ok_def env_unfocused_def)





section \<open>Properties of the camera lock\<close>

lemma filter_update_count:
  "i < length xs \<Longrightarrow>
   length (filter P (xs[i := y])) + (if P (xs ! i) then 1 else 0) =
   length (filter P xs) + (if P y then 1 else 0)"
proof (induction xs arbitrary: i)
  case Nil
  then show ?case by simp
next
  case (Cons x xs)
  show ?case
  proof (cases i)
    case 0
    then show ?thesis by simp
  next
    case (Suc j)
    with Cons.prems have "j < length xs" by simp
    from Cons.IH [OF this] Suc show ?thesis by simp
  qed
qed

lemma thread_step_cases:
  "thread_step r l t = (l', t') \<Longrightarrow>
     (holds t \<and> holds t' \<and> l' = l) \<or> (holds t \<and> \<not> holds t' \<and> \<not> l') \<or>
     (\<not> holds t \<and> holds t' \<and> \<not> l \<and> l') \<or> (\<not> holds t \<and> \<not> holds t' \<and> l' = l)"
  by (induction r l t rule: thread_step.induct) (auto split: if_splits call_result.splits)

lemma holds_in_filter:
  "i < length xs \<Longrightarrow> P (xs ! i) \<Longrightarrow> 0 < length (filter P xs)"
  by (metis filter_empty_conv length_greater_0_conv nth_mem)

lemma camera_step_length [simp]:
  "length (camera_threads (camera_step a s)) = length (camera_threads s)"
  by (cases a) (simp add: camera_step_def split: prod.splits)

lemma camera_step_inv:
  assumes "camera_inv s"
  shows "camera_inv (camera_step a s)"
proof (cases a)
  case (Pair i r)
  show ?thesis
  proof (cases "i < length (camera_threads s)")
    case False
    with Pair assms show ?thesis by (simp add: camera_step_def)
  next
    case True
    obtain l' t' where st: "thread_step r (camera_lock s) (camera_threads s ! i) = (l', t')"
      by (cases "thread_step r (camera_lock s) (camera_threads s ! i)") auto
    have s': "camera_step a s = \<lparr>camera_lock = l', camera_threads = (camera_threads s)[i := t']\<rparr>"
      using Pair True st by (simp add: camera_step_def)
    have cnt: "length (filter holds ((camera_threads s)[i := t'])) +
                 (if holds (camera_threads s ! i) then 1 else 0) =
               length (filter holds (camera_threads s)) + (if holds t' then 1 else 0)"
      using filter_update_count [OF True] .
    have pos: "holds (camera_threads s ! i) \<Longrightarrow> 0 < length (filter holds (camera_threads s))"
      using holds_in_filter [OF True] .
    from thread_step_cases [OF st] assms cnt pos show ?thesis
      unfolding s' camera_inv_def by (auto split: if_splits)
  qed
qed

lemma camera_exec_inv: "camera_inv s \<Longrightarrow> camera_inv (camera_exec sched s)"
  by (induction sched arbitrary: s) (simp_all add: camera_step_inv)

lemma start_not_holding: "filter holds (map start rs) = []"
proof (induction rs)
  case Nil
  show ?case by simp
next
  case (Cons r rs)
  then show ?case by (cases r) simp_all
qed

lemma camera_init_inv: "camera_inv (camera_init rs)"
  by (simp add: camera_inv_def camera_init_def start_not_holding)

lemma reachable_inv: "camera_inv (camera_exec sched (camera_init rs))"
  by (rule camera_exec_inv [OF camera_init_inv])

lemma run_to_release_length [simp]:
  "length (camera_threads (run_to_release i outs s)) = length (camera_threads s)"
  by (induction outs arbitrary: s) simp_all

lemma camera_step_own:
  "i < length (camera_threads s) \<Longrightarrow>
   camera_threads (camera_step (i, r) s) ! i = snd (thread_step r (camera_lock s) (camera_threads s ! i)) \<and>
   camera_lock (camera_step (i, r) s) = fst (thread_step r (camera_lock s) (camera_threads s ! i))"
  by (simp add: camera_step_def split: prod.splits)

lemma holder_step:
  "holds t \<Longrightarrow> thread_step r l t = (l', t') \<Longrightarrow>
   steps_left t' < steps_left t \<and> (if holds t' then True else \<not> l')"
  by (induction r l t rule: thread_step.induct) (auto split: call_result.splits)

lemma steps_left_holds: "steps_left t = 0 \<Longrightarrow> \<not> holds t"
  by (cases t rule: holds.cases) simp_all

lemma run_to_release_releases:
  "i < length (camera_threads s) \<Longrightarrow> holds (camera_threads s ! i) \<Longrightarrow>
   steps_left (camera_threads s ! i) \<le> length outs \<Longrightarrow>
   \<not> holds (camera_threads (run_to_release i outs s) ! i) \<and> \<not> camera_lock (run_to_release i outs s)"
proof (induction outs arbitrary: s)
  case Nil
  then show ?case using steps_left_holds by auto
next
  case (Cons r outs)
  let ?s' = "camera_step (i, r) s"
  obtain l' t' where st: "thread_step r (camera_lock s) (camera_threads s ! i) = (l', t')"
    by (cases "thread_step r (camera_lock s) (camera_threads s ! i)") auto
  from camera_step_own [OF Cons.prems(1), of r] st
  have own: "camera_threads ?s' ! i = t'" "camera_lock ?s' = l'" by simp_all
  from holder_step [OF Cons.prems(2) st]
  have dec: "steps_left t' < steps_left (camera_threads s ! i)" and rel: "if holds t' then True else \<not> l'"
    by simp_all
  have r: "run_to_release i (r # outs) s = run_to_release i outs ?s'"
    using Cons.prems(2) by simp
  show ?case
  proof (cases "holds t'")
    case True
    have "i < length (camera_threads ?s')" using Cons.prems(1) by simp
    moreover have "holds (camera_threads ?s' ! i)" using True own by simp
    moreover have "steps_left (camera_threads ?s' ! i) \<le> length outs"
      using dec Cons.prems(3) own by simp
    ultimately show ?thesis unfolding r by (rule Cons.IH)
  next
    case False
    then have "run_to_release i outs ?s' = ?s'"
      using own by (cases outs) simp_all
    with False rel own show ?thesis unfolding r by simp
  qed
qed

lemma steps_left_le_3: "steps_left t \<le> 3"
  by (cases t rule: steps_left.cases) simp_all

text \<open>
  C1. Whatever the number of streaming and capturing threads and however their steps
  interleave, at most one thread holds the camera at any instant, a streamer or a
  capturer, and the lock bit is set exactly while one does. A thread that holds the
  camera releases it within its next three steps on every path, whether its calls to
  the camera return or raise, and the lock is then free.
\<close>

theorem camera_mutual_exclusion:
  "length (holders (camera_exec sched (camera_init rs))) \<le> 1 \<and>
   (camera_lock (camera_exec sched (camera_init rs)) \<longleftrightarrow>
      holders (camera_exec sched (camera_init rs)) \<noteq> []) \<and>
   (\<forall>i outs. i < length (camera_threads (camera_exec sched (camera_init rs))) \<and>
       holds (camera_threads (camera_exec sched (camera_init rs)) ! i) \<and> 3 \<le> length outs \<longrightarrow>
       \<not> holds (camera_threads (run_to_release i outs (camera_exec sched (camera_init rs))) ! i) \<and>
       \<not> camera_lock (run_to_release i outs (camera_exec sched (camera_init rs))))"
proof -
  let ?s = "camera_exec sched (camera_init rs)"
  have inv: "length (filter holds (camera_threads ?s)) = (if camera_lock ?s then 1 else 0)"
    using reachable_inv [of sched rs] by (simp add: camera_inv_def)
  have a: "length (holders ?s) \<le> 1"
    using inv by (simp add: holders_def)
  have b: "camera_lock ?s \<longleftrightarrow> holders ?s \<noteq> []"
    using inv by (auto simp: holders_def split: if_splits)
  have c: "\<not> holds (camera_threads (run_to_release i outs ?s) ! i) \<and>
           \<not> camera_lock (run_to_release i outs ?s)"
    if "i < length (camera_threads ?s)" "holds (camera_threads ?s ! i)" "3 \<le> length outs" for i outs
    using run_to_release_releases [OF that(1,2)] steps_left_le_3 [of "camera_threads ?s ! i"] that(3)
    by simp
  from a b c show ?thesis by blast
qed

lemma sched0_state:
  "camera_exec sched0 (camera_init [Stream, Capture]) =
     \<lparr>camera_lock = True, camera_threads = [Streamer (S_release Exceptional), Capturer C_acquire]\<rparr>"
  by (simp add: sched0_def camera_init_def camera_step_def)

theorem camera_mutual_exclusion_witness:
  "holders (camera_exec sched0 (camera_init [Stream, Capture])) = [Stream] \<and>
   camera_lock (camera_exec sched0 (camera_init [Stream, Capture])) \<and>
   \<not> holds (camera_threads (run_to_release 0 [Ok, Ok, Ok] (camera_exec sched0 (camera_init [Stream, Capture]))) ! 0) \<and>
   \<not> camera_lock (run_to_release 0 [Ok, Ok, Ok] (camera_exec sched0 (camera_init [Stream, Capture])))"
  using camera_mutual_exclusion [of sched0 "[Stream, Capture]"]
  by (simp add: sched0_state holders_def camera_step_def)

section \<open>Properties of the blink signal\<close>

lemma blink_led_cases:
  "blink_led l on pc = (l', on', pc', evs) \<Longrightarrow>
     ((in_sequence pc \<and> in_sequence pc' \<and> l' = l) \<or> (in_sequence pc \<and> \<not> in_sequence pc' \<and> \<not> l') \<or>
      (\<not> in_sequence pc \<and> in_sequence pc' \<and> \<not> l \<and> l') \<or>
      (\<not> in_sequence pc \<and> \<not> in_sequence pc' \<and> l' = l)) \<and>
     count_list evs (Release Blink_lock) + (if pc = B_done then 1 else 0) =
       (if pc' = B_done then 1 else 0) \<and>
     count_list evs (Acquire Blink_lock) + (if in_sequence pc then 1 else 0) + (if pc = B_done then 1 else 0) =
       (if in_sequence pc' then 1 else 0) + (if pc' = B_done then 1 else 0)"
  by (induction l on pc rule: blink_led.induct) (auto simp: next_iteration_def split: if_splits)

lemma blink_call_inv:
  "blink_inv s \<Longrightarrow> blink_inv (blink_step Call_blink s)"
  by (simp add: blink_inv_def blink_step_def running_def threads_at_def
      sequences_completed_def sequences_started_def)

lemma blink_run_inv:
  assumes "blink_inv s"
  shows "blink_inv (blink_step (Run_thread i) s)"
proof (cases "i < length (blink_threads s)")
  case False
  with assms show ?thesis by (simp add: blink_step_def)
next
  case True
  let ?ts = "blink_threads s"
  obtain l' on' pc' evs where st: "blink_led (blink_lock s) (indicator s) (?ts ! i) = (l', on', pc', evs)"
    by (cases "blink_led (blink_lock s) (indicator s) (?ts ! i)") auto
  have s': "blink_step (Run_thread i) s =
      \<lparr>blink_lock = l', indicator = on', blink_threads = ?ts[i := pc'], blink_trace = blink_trace s @ evs\<rparr>"
    using True st by (simp add: blink_step_def)
  have r: "length (filter in_sequence (?ts[i := pc'])) + (if in_sequence (?ts ! i) then 1 else 0) =
           length (filter in_sequence ?ts) + (if in_sequence pc' then 1 else 0)"
    using filter_update_count [OF True] .
  have d: "length (filter (\<lambda>p. p = B_done) (?ts[i := pc'])) + (if ?ts ! i = B_done then 1 else 0) =
           length (filter (\<lambda>p. p = B_done) ?ts) + (if pc' = B_done then 1 else 0)"
    using filter_update_count [OF True, of "\<lambda>p. p = B_done" pc'] .
  have pos: "in_sequence (?ts ! i) \<Longrightarrow> 0 < length (filter in_sequence ?ts)"
    using holds_in_filter [OF True] .
  from blink_led_cases [OF st] have
    c: "(in_sequence (?ts ! i) \<and> in_sequence pc' \<and> l' = blink_lock s) \<or>
        (in_sequence (?ts ! i) \<and> \<not> in_sequence pc' \<and> \<not> l') \<or>
        (\<not> in_sequence (?ts ! i) \<and> in_sequence pc' \<and> \<not> blink_lock s \<and> l') \<or>
        (\<not> in_sequence (?ts ! i) \<and> \<not> in_sequence pc' \<and> l' = blink_lock s)"
    and rel: "count_list evs (Release Blink_lock) + (if ?ts ! i = B_done then 1 else 0) =
       (if pc' = B_done then 1 else 0)"
    and acq: "count_list evs (Acquire Blink_lock) + (if in_sequence (?ts ! i) then 1 else 0) +
         (if ?ts ! i = B_done then 1 else 0) =
       (if in_sequence pc' then 1 else 0) + (if pc' = B_done then 1 else 0)"
    by blast+
  have i1: "running (blink_step (Run_thread i) s) = (if l' then 1 else 0)"
    using c r pos assms unfolding s' blink_inv_def running_def
    by (auto split: if_splits)
  have i2: "sequences_completed (blink_step (Run_thread i) s) = threads_at B_done (blink_step (Run_thread i) s)"
    using rel d assms unfolding s' blink_inv_def sequences_completed_def threads_at_def
    by (simp split: if_splits)
  have i3: "sequences_started (blink_step (Run_thread i) s) =
      running (blink_step (Run_thread i) s) + threads_at B_done (blink_step (Run_thread i) s)"
    using acq r d assms unfolding s' blink_inv_def sequences_started_def threads_at_def running_def
    by (simp split: if_splits)
  from i1 i2 i3 show ?thesis
    unfolding blink_inv_def s' by simp
qed

lemma blink_step_inv: "blink_inv s \<Longrightarrow> blink_inv (blink_step a s)"
  by (cases a) (simp_all add: blink_call_inv blink_run_inv)

lemma blink_exec_inv: "blink_inv s \<Longrightarrow> blink_inv (blink_exec sched s)"
  by (induction sched arbitrary: s) (simp_all add: blink_step_inv)

lemma blink_init_inv: "blink_inv blink_init"
  by (simp add: blink_inv_def blink_init_def running_def threads_at_def
      sequences_completed_def sequences_started_def)

lemma blink_partition:
  "length ts = length (filter (\<lambda>p. p = B_try) ts) + length (filter (\<lambda>p. p = B_returned) ts) +
     length (filter in_sequence ts) + length (filter (\<lambda>p. p = B_done) ts)"
proof (induction ts)
  case Nil
  show ?case by simp
next
  case (Cons p ts)
  then show ?case by (cases p) simp_all
qed

lemma busy_attempt_is_noop:
  assumes "i < length (blink_threads s)" "blink_threads s ! i = B_try" "blink_lock s"
  shows "blink_step (Run_thread i) s = s\<lparr>blink_threads := (blink_threads s)[i := B_returned]\<rparr>"
  using assms by (simp add: blink_step_def)

text \<open>
  C8, as amended. In every reachable state, a blink thread that makes its attempt on
  the lock while a sequence is in progress returns at once and changes nothing but its
  own position: the lock, the LED and the trace stay as they are, no thread is added
  and none is left waiting. At most one sequence runs at a time; the sequences
  started are those completed and the one running; and every call of
  \<^verbatim>\<open>blink()\<close> is accounted for once, as a completed sequence, the running one, an
  attempt that returned early, or a thread that has not yet made its attempt.
\<close>

theorem blink_single_flight:
  "(\<forall>i. i < length (blink_threads (blink_exec sched blink_init)) \<and>
        blink_threads (blink_exec sched blink_init) ! i = B_try \<and>
        blink_lock (blink_exec sched blink_init) \<longrightarrow>
        blink_step (Run_thread i) (blink_exec sched blink_init) =
          (blink_exec sched blink_init)
            \<lparr>blink_threads := (blink_threads (blink_exec sched blink_init))[i := B_returned]\<rparr>) \<and>
   running (blink_exec sched blink_init) \<le> 1 \<and>
   sequences_started (blink_exec sched blink_init) =
     sequences_completed (blink_exec sched blink_init) + running (blink_exec sched blink_init) \<and>
   sequences_completed (blink_exec sched blink_init) + running (blink_exec sched blink_init) +
     threads_at B_returned (blink_exec sched blink_init) + threads_at B_try (blink_exec sched blink_init) =
     blink_calls (blink_exec sched blink_init)"
proof -
  let ?s = "blink_exec sched blink_init"
  have inv: "blink_inv ?s"
    by (rule blink_exec_inv [OF blink_init_inv])
  have a: "blink_step (Run_thread i) ?s = ?s\<lparr>blink_threads := (blink_threads ?s)[i := B_returned]\<rparr>"
    if "i < length (blink_threads ?s) \<and> blink_threads ?s ! i = B_try \<and> blink_lock ?s" for i
    using that busy_attempt_is_noop by blast
  have b: "running ?s \<le> 1"
    using inv by (simp add: blink_inv_def)
  have c: "sequences_started ?s = sequences_completed ?s + running ?s"
    using inv by (simp add: blink_inv_def)
  have d: "sequences_completed ?s + running ?s + threads_at B_returned ?s + threads_at B_try ?s = blink_calls ?s"
    using inv blink_partition [of "blink_threads ?s"]
    by (simp add: blink_inv_def blink_calls_def threads_at_def running_def)
  from a b c d show ?thesis by blast
qed

lemma busy3: "blink_exec [Call_blink, Run_thread 0, Call_blink] blink_init =
   \<lparr>blink_lock = True, indicator = False, blink_threads = [B_on 6, B_try], blink_trace = [Acquire Blink_lock]\<rparr>"
  by (simp add: blink_init_def blink_step_def next_iteration_def)

lemma busy4: "blink_exec busy_schedule blink_init =
   \<lparr>blink_lock = True, indicator = False, blink_threads = [B_on 6, B_returned], blink_trace = [Acquire Blink_lock]\<rparr>"
  by (simp add: busy_schedule_def blink_init_def blink_step_def next_iteration_def)

theorem blink_single_flight_witness:
  "blink_step (Run_thread 1) (blink_exec [Call_blink, Run_thread 0, Call_blink] blink_init) =
     (blink_exec [Call_blink, Run_thread 0, Call_blink] blink_init)\<lparr>blink_threads := [B_on 6, B_returned]\<rparr> \<and>
   sequences_started (blink_exec busy_schedule blink_init) = 1 \<and>
   sequences_completed (blink_exec busy_schedule blink_init) = 0 \<and>
   threads_at B_returned (blink_exec busy_schedule blink_init) = 1 \<and>
   blink_calls (blink_exec busy_schedule blink_init) = 2"
  using blink_single_flight [of "[Call_blink, Run_thread 0, Call_blink]", unfolded busy3]
        blink_single_flight [of busy_schedule, unfolded busy4]
  unfolding busy3 busy4
  by (simp add: sequences_started_def sequences_completed_def threads_at_def
      blink_calls_def running_def blink_step_def)

text \<open>
  C8 as stated fails: a call made while a sequence is in progress is not always
  without effect. In \<open>late_schedule\<close> the second call is made while the first
  sequence runs, yet its thread makes its attempt only after the release, finds the
  lock free, and a second sequence of six pulses runs: two calls, overlapping, and two
  completed sequences.
\<close>

theorem blink_call_during_sequence_counterexample:
  "take 2 late_schedule = [Call_blink, Run_thread 0] \<and> late_schedule ! 2 = Call_blink \<and>
   blink_lock (blink_exec (take 2 late_schedule) blink_init) \<and>
   running (blink_exec (take 2 late_schedule) blink_init) = 1 \<and>
   blink_calls (blink_exec late_schedule blink_init) = 2 \<and>
   sequences_completed (blink_exec late_schedule blink_init) = 2 \<and>
   count_list (blink_trace (blink_exec late_schedule blink_init)) (LedOn Ledc) = 12"
  by code_simp

section \<open>Properties of the status routes\<close>

lemma toggle_touches: "timer (snd (toggle_led1_route now s)) = now \<and> timer (snd (toggle_led2_route now s)) = now"
  by (simp add: toggle_led1_route_def toggle_led2_route_def update_timer_def Let_def)

text \<open>
  C9. The passive status reads, \<^verbatim>\<open>device_status\<close> and the three LED status
  routes, leave the activity timer as it was: the idle duration computed at any
  instant after such a request is the one computed before it.
\<close>

theorem passive_status_reads_keep_timer:
  "timer (snd (device_status s)) = timer s \<and>
   timer (snd (led1_status_route s)) = timer s \<and>
   timer (snd (led2_status_route s)) = timer s \<and>
   timer (snd (uv_status_route s)) = timer s \<and>
   idle_duration now (snd (device_status s)) = idle_duration now s \<and>
   idle_duration now (snd (led1_status_route s)) = idle_duration now s \<and>
   idle_duration now (snd (led2_status_route s)) = idle_duration now s \<and>
   idle_duration now (snd (uv_status_route s)) = idle_duration now s"
  by (simp add: device_status_def led1_status_route_def led2_status_route_def
      uv_status_route_def idle_duration_def)

theorem passive_status_reads_keep_timer_witness:
  "idle_duration 500 (snd (device_status s0)) = 500 \<and>
   idle_duration 500 (snd (led1_status_route s0)) = 500 \<and>
   idle_duration 500 (snd (led2_status_route s0)) = 500 \<and>
   idle_duration 500 (snd (uv_status_route s0)) = 500"
  using passive_status_reads_keep_timer [of s0 500] by (simp add: idle_duration_def s0_def)

end
